theory Spec2Isabelle
  imports Complex_Main
begin

section \<open>Data model\<close>

text \<open>
  A Python float is a finite value, an infinity or NaN. Finite floats are embedded in
  the reals; only comparisons are performed on them by the script, and the comparison
  of two finite floats is the comparison of the reals they denote.
\<close>

datatype pyfloat = Finite real | PosInf | NegInf | NaN

text \<open>
  \<open>x > k\<close> for a float \<open>x\<close> and an integer constant \<open>k\<close>: every comparison with NaN
  is false.
\<close>

fun float_gt :: "pyfloat \<Rightarrow> int \<Rightarrow> bool" where
  "float_gt (Finite x) k = (of_int k < x)"
| "float_gt PosInf k = True"
| "float_gt NegInf k = False"
| "float_gt NaN k = False"

text \<open>\<open>x <= k\<close>, likewise false on NaN.\<close>

fun float_le :: "pyfloat \<Rightarrow> int \<Rightarrow> bool" where
  "float_le (Finite x) k = (x \<le> of_int k)"
| "float_le PosInf k = False"
| "float_le NegInf k = True"
| "float_le NaN k = False"

text \<open>The exceptions that the script can meet.\<close>

datatype error = IndexError | KeyError | ValueError | EOFError

text \<open>
  One entry of the list \<open>entries\<close>: the dictionary built by \<open>main\<close> with the keys
  \<open>name\<close>, \<open>latitude\<close>, \<open>longitude\<close> and \<open>is_similar\<close>.
\<close>

record entry =
  name :: string
  latitude :: pyfloat
  longitude :: pyfloat
  is_similar :: int

type_synonym coord = "pyfloat \<times> pyfloat"

text \<open>
  The two library functions are parameters of the model:
  \<open>great_circle(coord1, coord2).meters\<close> of geopy and \<open>Levenshtein.distance\<close>. The
  distance computation either returns a float or raises: geopy raises ValueError on a
  coordinate that is not finite and on a latitude outside \<open>[-90, 90]\<close>.
\<close>

type_synonym great_circle = "coord \<Rightarrow> coord \<Rightarrow> error + pyfloat"
type_synonym edit_distance = "string \<Rightarrow> string \<Rightarrow> nat"

definition MAX_DISTANCE :: int where
  "MAX_DISTANCE = 200"

definition MAX_EDITS :: nat where
  "MAX_EDITS = 5"

definition CHUNKS :: nat where
  "CHUNKS = 100000"

section \<open>The pair evaluator\<close>

definition distance_between_coordinates ::
  "great_circle \<Rightarrow> coord \<Rightarrow> coord \<Rightarrow> error + pyfloat" where
  "distance_between_coordinates gc coord1 coord2 = gc coord1 coord2"

definition is_name_similar :: "edit_distance \<Rightarrow> string \<Rightarrow> string \<Rightarrow> bool" where
  "is_name_similar lev name1 name2 = (lev name1 name2 < MAX_EDITS)"

text \<open>
  \<open>process_entries(i, j, entries)\<close>: the list is mutated in place in the source and
  returned here. Reading \<open>entries[i]\<close> or \<open>entries[j]\<close> out of range raises IndexError,
  and an exception of the distance computation is not caught. Both come before the
  first assignment: when the function raises, the list is as it was.
\<close>

definition process_entries ::
  "great_circle \<Rightarrow> edit_distance \<Rightarrow> nat \<Rightarrow> nat \<Rightarrow> entry list \<Rightarrow> error + entry list" where
  "process_entries gc lev i j entries =
     (if length entries \<le> i \<or> length entries \<le> j then Inl IndexError
      else
        let entry1 = entries ! i;
            entry2 = entries ! j;
            coord1 = (latitude entry1, longitude entry1);
            coord2 = (latitude entry2, longitude entry2)
        in case distance_between_coordinates gc coord1 coord2 of
             Inl e \<Rightarrow> Inl e
           | Inr distance \<Rightarrow>
               if float_gt distance MAX_DISTANCE then Inr entries
               else
                 let name_similar = is_name_similar lev (name entry1) (name entry2)
                 in if \<not> name_similar then Inr entries
                    else
                      let entries1 = entries[i := (entries ! i)\<lparr>is_similar := 1\<rparr>];
                          entries2 = entries1[j := (entries1 ! j)\<lparr>is_similar := 1\<rparr>]
                      in Inr entries2)"

section \<open>The scheduler\<close>

text \<open>
  The local state of \<open>find_similar_entries\<close>. A task created by \<open>asyncio.create_task\<close>
  does not start before the creating coroutine awaits; the only await of the scheduler
  is \<open>asyncio.gather\<close>. Each task is the pair of indices that it was created with. The
  field \<open>completed\<close> lists the tasks that have run and returned, in the order in which
  they ran.
\<close>

record sched =
  entries :: "entry list"
  tasks :: "(nat \<times> nat) list"
  counter :: nat
  completed :: "(nat \<times> nat) list"

text \<open>
  An exception that leaves the scheduler, with the state at that moment, or the state
  at its end.
\<close>

type_synonym run = "(error \<times> sched) + sched"

definition state_of :: "run \<Rightarrow> sched" where
  "state_of r = (case r of Inl (e, s) \<Rightarrow> s | Inr s \<Rightarrow> s)"

text \<open>
  The event loop runs the scheduled tasks in the order of their creation, and a task
  never suspends: each inner await is on a coroutine that completes at once. A task
  that raises does not stop the tasks queued behind it: they were all scheduled before
  the gathering coroutine can resume. The result is the first exception, if any, and
  the state after the last task.
\<close>

fun run_tasks ::
  "great_circle \<Rightarrow> edit_distance \<Rightarrow> (nat \<times> nat) list \<Rightarrow> sched \<Rightarrow> error option \<times> sched" where
  "run_tasks gc lev [] s = (None, s)"
| "run_tasks gc lev ((i, j) # ts) s =
     (case process_entries gc lev i j (entries s) of
        Inl e \<Rightarrow> (Some e, snd (run_tasks gc lev ts s))
      | Inr es' \<Rightarrow>
          run_tasks gc lev ts (s\<lparr>entries := es', completed := completed s @ [(i, j)]\<rparr>))"

text \<open>
  \<open>await asyncio.gather(*tasks)\<close>: the first exception of a task is raised in the
  scheduler, which does not catch it.
\<close>

definition gather :: "great_circle \<Rightarrow> edit_distance \<Rightarrow> sched \<Rightarrow> run" where
  "gather gc lev s =
     (case run_tasks gc lev (tasks s) s of
        (Some e, s') \<Rightarrow> Inl (e, s')
      | (None, s') \<Rightarrow> Inr s')"

text \<open>The loop \<open>for j in range(i+1, n)\<close>, over the values of \<open>j\<close> that remain.\<close>

fun inner_loop ::
  "great_circle \<Rightarrow> edit_distance \<Rightarrow> nat \<Rightarrow> nat \<Rightarrow> nat list \<Rightarrow> sched \<Rightarrow> run" where
  "inner_loop gc lev chunks i [] s = Inr s"
| "inner_loop gc lev chunks i (j # js) s =
     (let s1 = s\<lparr>tasks := tasks s @ [(i, j)], counter := counter s + 1\<rparr>
      in if counter s1 = chunks then
           (case gather gc lev s1 of
              Inl x \<Rightarrow> Inl x
            | Inr s2 \<Rightarrow> inner_loop gc lev chunks i js (s2\<lparr>counter := 0, tasks := []\<rparr>))
         else inner_loop gc lev chunks i js s1)"

text \<open>The loop \<open>for i in tqdm(range(n))\<close>, over the values of \<open>i\<close> that remain.\<close>

fun outer_loop ::
  "great_circle \<Rightarrow> edit_distance \<Rightarrow> nat \<Rightarrow> nat \<Rightarrow> nat list \<Rightarrow> sched \<Rightarrow> run" where
  "outer_loop gc lev chunks n [] s = Inr s"
| "outer_loop gc lev chunks n (i # is) s =
     (if length (entries s) \<le> i then Inl (IndexError, s)
      else if is_similar (entries s ! i) = 1 then outer_loop gc lev chunks n is s
      else
        (case inner_loop gc lev chunks i [i + 1 ..< n] s of
           Inl x \<Rightarrow> Inl x
         | Inr s' \<Rightarrow> outer_loop gc lev chunks n is s'))"

definition init_sched :: "entry list \<Rightarrow> sched" where
  "init_sched es = \<lparr>entries = es, tasks = [], counter = 0, completed = []\<rparr>"

text \<open>
  \<open>find_similar_entries(entries)\<close>. The batch size is the module constant \<open>CHUNKS\<close> in
  the source; it is an argument here, so that a batch boundary can be met on a short
  list. The script runs \<open>find_similar_entries gc lev CHUNKS\<close>.
\<close>

definition find_similar_entries ::
  "great_circle \<Rightarrow> edit_distance \<Rightarrow> nat \<Rightarrow> entry list \<Rightarrow> run" where
  "find_similar_entries gc lev chunks es =
     (let n = length es
      in case outer_loop gc lev chunks n [0 ..< n] (init_sched es) of
           Inl x \<Rightarrow> Inl x
         | Inr s \<Rightarrow> if counter s \<noteq> 0 then gather gc lev s else Inr s)"

section \<open>Loading, the confirmation prompt and the exit status\<close>

text \<open>
  A row of \<open>csv.DictReader\<close> maps column names to text; a column that the row does
  not have raises on access. \<open>float(...)\<close> is a parameter: \<open>None\<close> is the ValueError
  of text that is not a number. The fields of the dictionary are evaluated in the
  order in which they are written.
\<close>

type_synonym row = "string \<rightharpoonup> string"
type_synonym float_parser = "string \<Rightarrow> pyfloat option"

definition load_row :: "float_parser \<Rightarrow> row \<Rightarrow> error + entry" where
  "load_row parse_float r =
     (case r ''name'' of
        None \<Rightarrow> Inl KeyError
      | Some nm \<Rightarrow>
          (case r ''latitude'' of
             None \<Rightarrow> Inl KeyError
           | Some la \<Rightarrow>
               (case parse_float la of
                  None \<Rightarrow> Inl ValueError
                | Some lat \<Rightarrow>
                    (case r ''longitude'' of
                       None \<Rightarrow> Inl KeyError
                     | Some lo \<Rightarrow>
                         (case parse_float lo of
                            None \<Rightarrow> Inl ValueError
                          | Some lon \<Rightarrow>
                              Inr \<lparr>name = nm, latitude = lat, longitude = lon,
                                   is_similar = 0\<rparr>)))))"

text \<open>The loop \<open>for row in file_reader: entries.append(...)\<close>.\<close>

fun load_rows :: "float_parser \<Rightarrow> row list \<Rightarrow> entry list \<Rightarrow> error + entry list" where
  "load_rows parse_float [] es = Inr es"
| "load_rows parse_float (r # rs) es =
     (case load_row parse_float r of
        Inl e \<Rightarrow> Inl e
      | Inr en \<Rightarrow> load_rows parse_float rs (es @ [en]))"

text \<open>\<open>str.lower()\<close> on ASCII text.\<close>

definition lower_char :: "char \<Rightarrow> char" where
  "lower_char c =
     (let k = (of_char c :: nat)
      in if 65 \<le> k \<and> k \<le> 90 then char_of (k + 32) else c)"

definition lower :: "string \<Rightarrow> string" where
  "lower s = map lower_char s"

datatype answer = Proceed | Quit

text \<open>
  The \<open>while\<close> loop of the prompt, on the current answer and the lines that the
  standard input still holds; \<open>input\<close> raises EOFError when none is left. \<open>Quit\<close> is
  \<open>sys.exit(0)\<close>, \<open>Proceed\<close> is leaving the loop.
\<close>

fun prompt_loop :: "string \<Rightarrow> string list \<Rightarrow> error + answer" where
  "prompt_loop proceed rest =
     (if lower proceed \<noteq> ''y'' \<or> lower proceed \<noteq> ''n'' then
        (if proceed = ''n'' then Inr Quit
         else if proceed = ''y'' then Inr Proceed
         else (case rest of
                 [] \<Rightarrow> Inl EOFError
               | p # rest' \<Rightarrow> prompt_loop p rest'))
      else Inr Proceed)"

definition confirm :: "string list \<Rightarrow> error + answer" where
  "confirm stdin =
     (case stdin of
        [] \<Rightarrow> Inl EOFError
      | p # rest \<Rightarrow> prompt_loop p rest)"

text \<open>
  How a run ends: \<open>sys.exit(code)\<close>, an exception that nothing catches, or the end of
  the script with the entries that were handed to the writer.
\<close>

datatype outcome = SysExit int | Uncaught error | Written "entry list"

fun exit_status :: "outcome \<Rightarrow> int" where
  "exit_status (SysExit c) = c"
| "exit_status (Uncaught e) = 1"
| "exit_status (Written es) = 0"

text \<open>
  \<open>main\<close>, on the rows of the input file and the lines of the standard input. Every
  exception of the loading loop is caught and followed by \<open>sys.exit(0)\<close>. An error of
  the writer is caught and reported, and the run ends as it does after a successful
  write.
\<close>

definition main ::
  "float_parser \<Rightarrow> great_circle \<Rightarrow> edit_distance \<Rightarrow> row list \<Rightarrow> string list \<Rightarrow> outcome" where
  "main parse_float gc lev rows stdin =
     (case load_rows parse_float rows [] of
        Inl e \<Rightarrow> SysExit 0
      | Inr es \<Rightarrow>
          (case confirm stdin of
             Inl e \<Rightarrow> Uncaught e
           | Inr Quit \<Rightarrow> SysExit 0
           | Inr Proceed \<Rightarrow>
               (case find_similar_entries gc lev CHUNKS es of
                  Inl (e, s) \<Rightarrow> Uncaught e
                | Inr s \<Rightarrow> Written (entries s))))"

text \<open>
  The script body: \<open>None\<close> is an input path that does not exist (FileNotFoundError at
  the first \<open>open\<close>).
\<close>

definition script ::
  "float_parser \<Rightarrow> great_circle \<Rightarrow> edit_distance \<Rightarrow> row list option \<Rightarrow> string list \<Rightarrow> outcome" where
  "script parse_float gc lev input_file stdin =
     (case input_file of
        None \<Rightarrow> SysExit 0
      | Some rows \<Rightarrow> main parse_float gc lev rows stdin)"

section \<open>Sample inputs\<close>

text \<open>
  The edit distance of Levenshtein by its defining recursion: the least number of
  insertions, deletions and substitutions of one character.
\<close>

fun levenshtein :: "string \<Rightarrow> string \<Rightarrow> nat" where
  "levenshtein [] ys = length ys"
| "levenshtein (x # xs) [] = Suc (length xs)"
| "levenshtein (x # xs) (y # ys) =
     min (min (Suc (levenshtein xs (y # ys))) (Suc (levenshtein (x # xs) ys)))
         (levenshtein xs ys + (if x = y then 0 else 1))"

text \<open>
  A stand-in for the library on the sample points. As geopy does, it raises ValueError
  on a coordinate that is not finite and on a latitude outside \<open>[-90, 90]\<close>. The sample
  points lie on one meridian, where a degree of latitude is 111195 metres on the sphere
  of geopy; the values are those of the sphere up to rounding.
\<close>

fun sample_metres :: great_circle where
  "sample_metres (Finite la1, Finite lo1) (Finite la2, Finite lo2) =
     (if 90 < \<bar>la1\<bar> \<or> 90 < \<bar>la2\<bar> then Inl ValueError
      else Inr (Finite (111195 * (\<bar>la1 - la2\<bar> + \<bar>lo1 - lo2\<bar>))))"
| "sample_metres c1 c2 = Inl ValueError"

definition cafe_a :: entry where
  "cafe_a = \<lparr>name = ''Cafe'', latitude = Finite 10, longitude = Finite 20, is_similar = 0\<rparr>"

definition cafe_b :: entry where
  "cafe_b = \<lparr>name = ''Caffe'', latitude = Finite 10.001, longitude = Finite 20, is_similar = 0\<rparr>"

definition cafe_c :: entry where
  "cafe_c = \<lparr>name = ''Cafes'', latitude = Finite 10.0005, longitude = Finite 20, is_similar = 0\<rparr>"

definition zebra :: entry where
  "zebra = \<lparr>name = ''Zebra'', latitude = Finite 10, longitude = Finite 20, is_similar = 0\<rparr>"

definition far_cafe :: entry where
  "far_cafe = \<lparr>name = ''Cafe'', latitude = Finite 11, longitude = Finite 20, is_similar = 0\<rparr>"

definition lost_cafe :: entry where
  "lost_cafe = \<lparr>name = ''Cafe'', latitude = NaN, longitude = Finite 20, is_similar = 0\<rparr>"

definition edge_cafe :: entry where
  "edge_cafe = \<lparr>name = ''Cafe'', latitude = Finite (10 + 40 / 22239), longitude = Finite 20,
     is_similar = 0\<rparr>"

definition polar_cafe :: entry where
  "polar_cafe = \<lparr>name = ''Cafe'', latitude = Finite 91, longitude = Finite 20, is_similar = 0\<rparr>"

definition cafes :: "entry list" where
  "cafes = [cafe_a, cafe_b, cafe_c]"

definition trio :: "entry list" where
  "trio = [cafe_a, cafe_b, far_cafe]"

definition sample_float :: float_parser where
  "sample_float t =
     (if t = ''10'' then Some (Finite 10)
      else if t = ''20'' then Some (Finite 20)
      else if t = ''91'' then Some (Finite 91)
      else if t = ''nan'' then Some NaN
      else None)"

definition row_a :: row where
  "row_a = [''name'' \<mapsto> ''Cafe'', ''latitude'' \<mapsto> ''10'', ''longitude'' \<mapsto> ''20'']"


definition row_polar :: row where
  "row_polar = [''name'' \<mapsto> ''Cafe'', ''latitude'' \<mapsto> ''91'', ''longitude'' \<mapsto> ''20'']"

definition row_short :: row where
  "row_short = [''name'' \<mapsto> ''Cafe'', ''latitude'' \<mapsto> ''10'']"

definition row_text :: row where
  "row_text = [''name'' \<mapsto> ''Cafe'', ''latitude'' \<mapsto> ''north'', ''longitude'' \<mapsto> ''20'']"

section \<open>Notions used by the statements\<close>

text \<open>An entry with its flag set, as the two assignments of \<open>process_entries\<close> leave it.\<close>

definition flag :: "entry \<Rightarrow> entry" where
  "flag e = e\<lparr>is_similar := 1\<rparr>"

text \<open>An entry without its flag: what the matching pass must leave as it is.\<close>

definition erase :: "entry \<Rightarrow> entry" where
  "erase e = e\<lparr>is_similar := 0\<rparr>"

definition coord_of :: "entry \<Rightarrow> coord" where
  "coord_of e = (latitude e, longitude e)"

text \<open>The distance computation returns for the two records.\<close>

definition library_returns :: "great_circle \<Rightarrow> entry \<Rightarrow> entry \<Rightarrow> bool" where
  "library_returns gc e1 e2 = (\<exists>d. gc (coord_of e1) (coord_of e2) = Inr d)"

text \<open>It returns for every pair of the list, the earlier record on the left.\<close>

definition returns_on :: "great_circle \<Rightarrow> entry list \<Rightarrow> bool" where
  "returns_on gc es = (\<forall>a b. a < b \<longrightarrow> b < length es \<longrightarrow> library_returns gc (es ! a) (es ! b))"

text \<open>
  The matching condition in the words of the specification: the distance does not
  exceed \<open>MAX_DISTANCE\<close> and the edit distance is strictly less than \<open>MAX_EDITS\<close>.
\<close>

definition pair_matches :: "great_circle \<Rightarrow> edit_distance \<Rightarrow> entry \<Rightarrow> entry \<Rightarrow> bool" where
  "pair_matches gc lev e1 e2 =
     (case gc (coord_of e1) (coord_of e2) of
        Inl e \<Rightarrow> False
      | Inr d \<Rightarrow> \<not> float_gt d MAX_DISTANCE \<and> lev (name e1) (name e2) < MAX_EDITS)"

text \<open>Record \<open>k\<close> has another record that it matches, the earlier of the two on the left.\<close>

definition has_partner :: "great_circle \<Rightarrow> edit_distance \<Rightarrow> entry list \<Rightarrow> nat \<Rightarrow> bool" where
  "has_partner gc lev es k =
     (\<exists>m<length es. m \<noteq> k \<and> pair_matches gc lev (es ! min k m) (es ! max k m))"

text \<open>
  The same with a distance that is a number at most \<open>MAX_DISTANCE\<close>: a NaN distance is
  not within the threshold.
\<close>

definition close_match :: "great_circle \<Rightarrow> edit_distance \<Rightarrow> entry \<Rightarrow> entry \<Rightarrow> bool" where
  "close_match gc lev e1 e2 =
     (case gc (coord_of e1) (coord_of e2) of
        Inl e \<Rightarrow> False
      | Inr d \<Rightarrow> float_le d MAX_DISTANCE \<and> lev (name e1) (name e2) < MAX_EDITS)"

definition has_close_partner ::
  "great_circle \<Rightarrow> edit_distance \<Rightarrow> entry list \<Rightarrow> nat \<Rightarrow> bool" where
  "has_close_partner gc lev es k =
     (\<exists>m<length es. m \<noteq> k \<and> close_match gc lev (es ! min k m) (es ! max k m))"

text \<open>Latitude in \<open>[-90, 90]\<close> and longitude in \<open>[-180, 180]\<close>, both finite.\<close>

fun valid_coord :: "coord \<Rightarrow> bool" where
  "valid_coord (Finite la, Finite lo) = (- 90 \<le> la \<and> la \<le> 90 \<and> - 180 \<le> lo \<and> lo \<le> 180)"
| "valid_coord c = False"

text \<open>
  What the library is taken to guarantee on coordinates in the valid range: the
  distance computation returns, and what it returns is a number.
\<close>

definition never_nan_in_range :: "great_circle \<Rightarrow> bool" where
  "never_nan_in_range gc =
     (\<forall>c1 c2. valid_coord c1 \<longrightarrow> valid_coord c2 \<longrightarrow> (\<exists>d. gc c1 c2 = Inr d \<and> d \<noteq> NaN))"

definition in_range :: "entry \<Rightarrow> bool" where
  "in_range e = valid_coord (coord_of e)"

definition unflagged :: "entry \<Rightarrow> bool" where
  "unflagged e = (is_similar e = 0)"

text \<open>A row that lacks a required column, or whose latitude or longitude is not a number.\<close>

definition malformed :: "float_parser \<Rightarrow> row \<Rightarrow> string \<Rightarrow> bool" where
  "malformed parse_float r c = (case r c of None \<Rightarrow> True | Some t \<Rightarrow> parse_float t = None)"

definition bad_row :: "float_parser \<Rightarrow> row \<Rightarrow> bool" where
  "bad_row parse_float r =
     (r ''name'' = None \<or> malformed parse_float r ''latitude'' \<or>
      malformed parse_float r ''longitude'')"

text \<open>The tasks that have been created: those that have run and those that wait.\<close>

definition issued :: "sched \<Rightarrow> (nat \<times> nat) list" where
  "issued s = completed s @ tasks s"

text \<open>
  Invariants of the scheduler: a property \<open>Q\<close> of the list and of the tasks that have
  returned is kept by every evaluation of a pair that returns, and no evaluation of a
  pair raises where \<open>Q\<close> holds.
\<close>

definition tasks_ok :: "nat \<Rightarrow> (nat \<times> nat) list \<Rightarrow> bool" where
  "tasks_ok n ts = list_all (\<lambda>(i, j). i < j \<and> j < n) ts"

definition sched_ok :: "nat \<Rightarrow> (entry list \<Rightarrow> (nat \<times> nat) list \<Rightarrow> bool) \<Rightarrow> sched \<Rightarrow> bool" where
  "sched_ok n Q s =
     (length (entries s) = n \<and> Q (entries s) (completed s) \<and> tasks_ok n (tasks s) \<and>
      counter s = length (tasks s))"

definition preserved ::
  "great_circle \<Rightarrow> edit_distance \<Rightarrow> nat \<Rightarrow> (entry list \<Rightarrow> (nat \<times> nat) list \<Rightarrow> bool) \<Rightarrow> bool" where
  "preserved gc lev n Q =
     (\<forall>i j es past es'. i < j \<longrightarrow> j < n \<longrightarrow> length es = n \<longrightarrow> Q es past \<longrightarrow>
        process_entries gc lev i j es = Inr es' \<longrightarrow> Q es' (past @ [(i, j)]))"

definition no_raise ::
  "great_circle \<Rightarrow> edit_distance \<Rightarrow> nat \<Rightarrow> (entry list \<Rightarrow> (nat \<times> nat) list \<Rightarrow> bool) \<Rightarrow> bool" where
  "no_raise gc lev n Q =
     (\<forall>i j es past. i < j \<longrightarrow> j < n \<longrightarrow> length es = n \<longrightarrow> Q es past \<longrightarrow>
        (\<exists>es'. process_entries gc lev i j es = Inr es'))"

text \<open>
  What the matching pass keeps, for the list \<open>es0\<close> that it started from: every field
  but the flag; a flag is as it was, or it is 1 and the record has a partner; both
  records of a matching pair that has been evaluated are flagged.
\<close>

definition pass_inv ::
  "great_circle \<Rightarrow> edit_distance \<Rightarrow> entry list \<Rightarrow> entry list \<Rightarrow> (nat \<times> nat) list \<Rightarrow> bool" where
  "pass_inv gc lev es0 es past =
     (map erase es = map erase es0 \<and>
      (\<forall>k<length es0. is_similar (es ! k) = is_similar (es0 ! k) \<or>
         (is_similar (es ! k) = 1 \<and> has_partner gc lev es0 k)) \<and>
      (\<forall>(a, b) \<in> set past. pair_matches gc lev (es0 ! a) (es0 ! b) \<longrightarrow>
         is_similar (es ! a) = 1 \<and> is_similar (es ! b) = 1))"

section \<open>Invariants of the pair evaluator and of the scheduler\<close>

lemma process_entries_length:
  "process_entries gc lev i j es = Inr es' \<Longrightarrow> length es' = length es"
  by (auto simp: process_entries_def Let_def split: if_splits sum.splits)

lemma process_entries_eq:
  assumes "i < length es" "j < length es" "i \<noteq> j"
  shows "process_entries gc lev i j es =
         (case gc (coord_of (es ! i)) (coord_of (es ! j)) of
            Inl e \<Rightarrow> Inl e
          | Inr d \<Rightarrow>
              Inr (if pair_matches gc lev (es ! i) (es ! j)
                   then es[i := flag (es ! i), j := flag (es ! j)] else es))"
  using assms
  by (simp add: process_entries_def pair_matches_def flag_def coord_of_def Let_def
      distance_between_coordinates_def is_name_similar_def split: sum.splits)

lemma process_entries_raises:
  assumes "i < j" and "j < length es" and "gc (coord_of (es ! i)) (coord_of (es ! j)) = Inl e"
  shows "process_entries gc lev i j es = Inl e"
  using process_entries_eq [of i es j gc lev] assms by simp

lemma state_of_simps [simp]: "state_of (Inl (e, s)) = s" "state_of (Inr s) = s"
  by (simp_all add: state_of_def)

lemma run_tasks_inv:
  assumes step: "preserved gc lev n Q"
  shows "tasks_ok n ts \<Longrightarrow> length (entries s) = n \<Longrightarrow> Q (entries s) (completed s) \<Longrightarrow>
         \<exists>r s'. run_tasks gc lev ts s = (r, s') \<and> length (entries s') = n \<and>
           Q (entries s') (completed s') \<and> tasks s' = tasks s \<and> counter s' = counter s \<and>
           (no_raise gc lev n Q \<longrightarrow> r = None \<and> completed s' = completed s @ ts)"
proof (induction ts arbitrary: s)
  case Nil
  then show ?case by simp
next
  case (Cons t ts)
  obtain i j where t: "t = (i, j)" by (cases t)
  from Cons.prems t have ij: "i < j" "j < n" and rest: "tasks_ok n ts"
    by (simp_all add: tasks_ok_def)
  show ?case
  proof (cases "process_entries gc lev i j (entries s)")
    case (Inl e)
    from Cons.IH [OF rest Cons.prems(2) Cons.prems(3)]
    obtain r s' where run: "run_tasks gc lev ts s = (r, s')" and len: "length (entries s') = n"
      and q: "Q (entries s') (completed s')" and same: "tasks s' = tasks s" "counter s' = counter s"
      by blast
    have "\<not> no_raise gc lev n Q"
      using Inl ij Cons.prems(2) Cons.prems(3) unfolding no_raise_def by force
    with run len q same Inl show ?thesis by (simp add: t)
  next
    case (Inr es1)
    define s1 where "s1 = s\<lparr>entries := es1, completed := completed s @ [(i, j)]\<rparr>"
    have len1: "length (entries s1) = n"
      using process_entries_length [OF Inr] Cons.prems by (simp add: s1_def)
    have q1: "Q (entries s1) (completed s1)"
      using step ij Cons.prems(2) Cons.prems(3) Inr unfolding preserved_def s1_def by auto
    from Cons.IH [OF rest len1 q1]
    obtain r s' where run: "run_tasks gc lev ts s1 = (r, s')" and len: "length (entries s') = n"
      and q: "Q (entries s') (completed s')"
      and same: "tasks s' = tasks s1" "counter s' = counter s1"
      and good: "no_raise gc lev n Q \<longrightarrow> r = None \<and> completed s' = completed s1 @ ts"
      by blast
    from run len q same good Inr show ?thesis
      by (simp add: t s1_def [symmetric]) (simp add: s1_def)
  qed
qed

lemma gather_inv:
  assumes step: "preserved gc lev n Q" and ok: "sched_ok n Q s"
  shows "sched_ok n Q (state_of (gather gc lev s)) \<and>
         (no_raise gc lev n Q \<longrightarrow>
            (\<exists>s'. gather gc lev s = Inr s' \<and> sched_ok n Q s' \<and>
               completed s' = completed s @ tasks s \<and> tasks s' = tasks s \<and>
               counter s' = counter s))"
proof -
  from ok have "tasks_ok n (tasks s)" "length (entries s) = n" "Q (entries s) (completed s)"
    by (simp_all add: sched_ok_def)
  from run_tasks_inv [OF step this]
  obtain r s' where run: "run_tasks gc lev (tasks s) s = (r, s')" and len: "length (entries s') = n"
    and q: "Q (entries s') (completed s')" and same: "tasks s' = tasks s" "counter s' = counter s"
    and good: "no_raise gc lev n Q \<longrightarrow> r = None \<and> completed s' = completed s @ tasks s"
    by blast
  from len q same ok have ok': "sched_ok n Q s'" by (simp add: sched_ok_def)
  from run ok' same good show ?thesis
    by (cases r) (auto simp: gather_def)
qed

lemma inner_loop_inv:
  assumes step: "preserved gc lev n Q"
  shows "sched_ok n Q s \<Longrightarrow> \<forall>j \<in> set js. i < j \<and> j < n \<Longrightarrow>
         sched_ok n Q (state_of (inner_loop gc lev chunks i js s)) \<and>
         (no_raise gc lev n Q \<longrightarrow>
            (\<exists>s'. inner_loop gc lev chunks i js s = Inr s' \<and> sched_ok n Q s' \<and>
               issued s' = issued s @ map (Pair i) js))"
proof (induction js arbitrary: s)
  case Nil
  then show ?case by simp
next
  case (Cons j js)
  define s1 where "s1 = s\<lparr>tasks := tasks s @ [(i, j)], counter := counter s + 1\<rparr>"
  from Cons.prems have ok1: "sched_ok n Q s1"
    by (simp add: s1_def sched_ok_def tasks_ok_def)
  have iss1: "issued s1 = issued s @ [(i, j)]"
    by (simp add: s1_def issued_def)
  from Cons.prems have js: "\<forall>j \<in> set js. i < j \<and> j < n" by simp
  have unroll: "inner_loop gc lev chunks i (j # js) s =
      (if counter s1 = chunks then
         (case gather gc lev s1 of
            Inl x \<Rightarrow> Inl x
          | Inr s2 \<Rightarrow> inner_loop gc lev chunks i js (s2\<lparr>counter := 0, tasks := []\<rparr>))
       else inner_loop gc lev chunks i js s1)"
    by (simp add: s1_def Let_def)
  show ?case
  proof (cases "counter s1 = chunks")
    case False
    from Cons.IH [OF ok1 js] False show ?thesis
      unfolding unroll by (simp add: iss1)
  next
    case True
    note g = gather_inv [OF step ok1]
    show ?thesis
    proof (cases "gather gc lev s1")
      case (Inl x)
      obtain e sa where x: "x = (e, sa)" by (cases x)
      from g Inl x have "sched_ok n Q sa" and "\<not> no_raise gc lev n Q" by auto
      with True Inl x show ?thesis unfolding unroll by simp
    next
      case (Inr s2)
      define s3 where "s3 = s2\<lparr>counter := 0, tasks := []\<rparr>"
      from g Inr have ok2: "sched_ok n Q s2" by simp
      then have ok3: "sched_ok n Q s3"
        by (simp add: s3_def sched_ok_def tasks_ok_def)
      have iss3: "no_raise gc lev n Q \<longrightarrow> issued s3 = issued s1"
        using g Inr by (auto simp: s3_def issued_def)
      from Cons.IH [OF ok3 js] True Inr iss3 show ?thesis
        unfolding unroll by (auto simp: s3_def [symmetric] iss1)
    qed
  qed
qed

lemma outer_loop_inv:
  assumes step: "preserved gc lev n Q"
  shows "sched_ok n Q s \<Longrightarrow> \<forall>i \<in> set is. i < n \<Longrightarrow>
         sched_ok n Q (state_of (outer_loop gc lev chunks n is s)) \<and>
         (no_raise gc lev n Q \<longrightarrow>
            (\<exists>s' new. outer_loop gc lev chunks n is s = Inr s' \<and> sched_ok n Q s' \<and>
               issued s' = issued s @ new \<and> fst ` set new \<subseteq> set is))"
proof (induction "is" arbitrary: s)
  case Nil
  then show ?case by simp
next
  case (Cons i "is")
  from Cons.prems have i: "i < n" and rest: "\<forall>i \<in> set is. i < n" by simp_all
  from Cons.prems have len: "length (entries s) = n" by (simp add: sched_ok_def)
  show ?case
  proof (cases "is_similar (entries s ! i) = 1")
    case True
    from Cons.IH [OF Cons.prems(1) rest] True i len show ?thesis by auto
  next
    case False
    have "\<forall>j \<in> set [i + 1 ..< n]. i < j \<and> j < n" by simp
    note inner = inner_loop_inv [where chunks = chunks, OF step Cons.prems(1) this]
    show ?thesis
    proof (cases "inner_loop gc lev chunks i [i + 1 ..< n] s")
      case (Inl x)
      obtain e sa where x: "x = (e, sa)" by (cases x)
      from inner Inl x have "sched_ok n Q sa" and "\<not> no_raise gc lev n Q" by auto
      with False i len Inl x show ?thesis by simp
    next
      case (Inr s1)
      from inner Inr have ok1: "sched_ok n Q s1"
        and iss1: "no_raise gc lev n Q \<longrightarrow> issued s1 = issued s @ map (Pair i) [i + 1 ..< n]"
        by auto
      note ih = Cons.IH [OF ok1 rest]
      have safe: "sched_ok n Q (state_of (outer_loop gc lev chunks n (i # is) s))"
        using ih False i len Inr by simp
      have prog: "\<exists>s' new. outer_loop gc lev chunks n (i # is) s = Inr s' \<and> sched_ok n Q s' \<and>
               issued s' = issued s @ new \<and> fst ` set new \<subseteq> set (i # is)"
        if nr: "no_raise gc lev n Q"
      proof -
        from ih nr obtain s' new where
          o: "outer_loop gc lev chunks n is s1 = Inr s'" and ok': "sched_ok n Q s'"
          and iss': "issued s' = issued s1 @ new" and new: "fst ` set new \<subseteq> set is" by blast
        have "fst ` set (map (Pair i) [i + 1 ..< n] @ new) \<subseteq> set (i # is)"
          using new by auto
        with False i len Inr o ok' iss' iss1 nr show ?thesis
          by (intro exI [of _ s'] exI [of _ "map (Pair i) [i + 1 ..< n] @ new"]) simp
      qed
      from safe prog show ?thesis by blast
    qed
  qed
qed

lemma outer_loop_append:
  "outer_loop gc lev chunks n (xs @ ys) s =
     (case outer_loop gc lev chunks n xs s of
        Inl x \<Rightarrow> Inl x
      | Inr s' \<Rightarrow> outer_loop gc lev chunks n ys s')"
  by (induction xs arbitrary: s) (simp_all split: sum.splits)

lemma init_sched_ok: "Q es [] \<Longrightarrow> sched_ok (length es) Q (init_sched es)"
  by (simp add: sched_ok_def init_sched_def tasks_ok_def)

lemma final_gather:
  assumes step: "preserved gc lev n Q" and ok: "sched_ok n Q s"
  shows "sched_ok n Q (state_of (if counter s \<noteq> 0 then gather gc lev s else Inr s)) \<and>
         (no_raise gc lev n Q \<longrightarrow>
            (\<exists>fin. (if counter s \<noteq> 0 then gather gc lev s else Inr s) = Inr fin \<and>
               sched_ok n Q fin \<and> completed fin = issued s))"
proof (cases "counter s = 0")
  case True
  with ok have "tasks s = []" by (simp add: sched_ok_def)
  with True ok show ?thesis by (simp add: issued_def)
next
  case False
  with gather_inv [OF step ok] show ?thesis by (auto simp: issued_def)
qed

lemma find_similar_entries_inv:
  assumes step: "preserved gc lev (length es) Q" and init: "Q es []"
  shows "sched_ok (length es) Q (state_of (find_similar_entries gc lev chunks es)) \<and>
         (no_raise gc lev (length es) Q \<longrightarrow>
            (\<exists>fin. find_similar_entries gc lev chunks es = Inr fin \<and>
               sched_ok (length es) Q fin))"
proof -
  have "\<forall>i \<in> set [0 ..< length es]. i < length es" by simp
  note outer = outer_loop_inv
    [where chunks = chunks, OF step init_sched_ok [of Q es, OF init] this]
  show ?thesis
  proof (cases "outer_loop gc lev chunks (length es) [0 ..< length es] (init_sched es)")
    case (Inl x)
    obtain e sa where x: "x = (e, sa)" by (cases x)
    from outer Inl x have "sched_ok (length es) Q sa" and "\<not> no_raise gc lev (length es) Q"
      by auto
    with Inl x show ?thesis by (simp add: find_similar_entries_def Let_def)
  next
    case (Inr s)
    from outer Inr have ok: "sched_ok (length es) Q s" by simp
    from final_gather [OF step ok] Inr show ?thesis
      by (auto simp: find_similar_entries_def Let_def)
  qed
qed

lemma outer_loop_row:
  assumes step: "preserved gc lev n Q" and nr: "no_raise gc lev n Q"
    and ok: "sched_ok n Q s" and i: "i < n"
  shows "\<exists>s'. outer_loop gc lev chunks n [i] s = Inr s' \<and> sched_ok n Q s' \<and>
              issued s' = issued s @
                (if is_similar (entries s ! i) = 1 then [] else map (Pair i) [i + 1 ..< n])"
proof (cases "is_similar (entries s ! i) = 1")
  case True
  with ok i show ?thesis by (simp add: sched_ok_def)
next
  case False
  have "\<forall>j \<in> set [i + 1 ..< n]. i < j \<and> j < n" by simp
  from inner_loop_inv [where chunks = chunks, OF step ok this] nr
  obtain s' where "inner_loop gc lev chunks i [i + 1 ..< n] s = Inr s'"
    "sched_ok n Q s'" "issued s' = issued s @ map (Pair i) [i + 1 ..< n]"
    by blast
  with False ok i show ?thesis by (simp add: sched_ok_def)
qed

lemma upt_split_at: "i < n \<Longrightarrow> [0 ..< n] = [0 ..< i] @ [i] @ [Suc i ..< n]"
  using upt_add_eq_append [of 0 i "n - i"] by (simp add: upt_conv_Cons)

section \<open>What the matching pass keeps\<close>

lemma erase_flag [simp]: "erase (flag e) = erase e"
  by (simp add: erase_def flag_def)

lemma erase_fields:
  "erase a = erase b \<Longrightarrow> name a = name b \<and> latitude a = latitude b \<and> longitude a = longitude b"
  by (cases a, cases b) (simp add: erase_def)

lemma erase_coord: "erase a = erase b \<Longrightarrow> coord_of a = coord_of b"
  using erase_fields [of a b] by (simp add: coord_of_def)

lemma pair_matches_erase:
  "erase a = erase a' \<Longrightarrow> erase b = erase b' \<Longrightarrow>
   pair_matches gc lev a b = pair_matches gc lev a' b'"
  using erase_fields [of a a'] erase_fields [of b b']
  by (simp add: pair_matches_def coord_of_def split: sum.splits)

lemma map_erase_flagged:
  "map erase (es[i := flag (es ! i), j := flag (es ! j)]) = map erase es"
proof (rule nth_equalityI)
  show "length (map erase (es[i := flag (es ! i), j := flag (es ! j)])) = length (map erase es)"
    by simp
next
  fix k
  assume "k < length (map erase (es[i := flag (es ! i), j := flag (es ! j)]))"
  then have k: "k < length es" by simp
  then show "map erase (es[i := flag (es ! i), j := flag (es ! j)]) ! k = map erase es ! k"
    by (cases "k = j"; cases "k = i") simp_all
qed

lemma map_erase_nth:
  "map erase es = map erase es0 \<Longrightarrow> k < length es0 \<Longrightarrow> erase (es ! k) = erase (es0 ! k)"
  by (metis length_map nth_map)

lemma flagged_stays:
  assumes "i < length es" "j < length es" "is_similar (es ! a) = 1"
  shows "is_similar (es[i := flag (es ! i), j := flag (es ! j)] ! a) = 1"
  using assms by (cases "a = j"; cases "a = i") (simp_all add: flag_def)

lemma pass_inv_refl: "pass_inv gc lev es0 es0 []"
  by (simp add: pass_inv_def)

lemma pass_inv_preserved: "preserved gc lev (length es0) (pass_inv gc lev es0)"
  unfolding preserved_def
proof (intro allI impI)
  fix i j es past es'
  assume ij: "i < j" and j: "j < length es0" and len: "length es = length es0"
    and inv: "pass_inv gc lev es0 es past"
    and run: "process_entries gc lev i j es = Inr es'"
  from ij j have i: "i < length es0" by simp
  from inv have er: "map erase es = map erase es0" by (simp add: pass_inv_def)
  from ij j i len have eq: "es' = (if pair_matches gc lev (es ! i) (es ! j)
      then es[i := flag (es ! i), j := flag (es ! j)] else es)"
    using process_entries_eq [of i es j gc lev] run by (auto split: sum.splits)
  have same: "pair_matches gc lev (es ! i) (es ! j) = pair_matches gc lev (es0 ! i) (es0 ! j)"
    by (rule pair_matches_erase [OF map_erase_nth [OF er i] map_erase_nth [OF er j]])
  show "pass_inv gc lev es0 es' (past @ [(i, j)])"
  proof (cases "pair_matches gc lev (es ! i) (es ! j)")
    case False
    with eq inv same show ?thesis by (auto simp: pass_inv_def)
  next
    case True
    with eq have es': "es' = es[i := flag (es ! i), j := flag (es ! j)]" by simp
    from True same have m0: "pair_matches gc lev (es0 ! i) (es0 ! j)" by simp
    have pi: "has_partner gc lev es0 i"
      unfolding has_partner_def using m0 ij j by (intro exI [of _ j]) (simp add: min_def max_def)
    have pj: "has_partner gc lev es0 j"
      unfolding has_partner_def using m0 ij i by (intro exI [of _ i]) (simp add: min_def max_def)
    have fi: "is_similar (es' ! i) = 1" and fj: "is_similar (es' ! j) = 1"
      using ij i j len by (simp_all add: es' flag_def)
    have a: "map erase es' = map erase es0"
      using er by (simp add: es' map_erase_flagged)
    have b: "is_similar (es' ! k) = is_similar (es0 ! k) \<or>
        (is_similar (es' ! k) = 1 \<and> has_partner gc lev es0 k)" if k: "k < length es0" for k
    proof -
      from inv k have old: "is_similar (es ! k) = is_similar (es0 ! k) \<or>
          (is_similar (es ! k) = 1 \<and> has_partner gc lev es0 k)"
        by (simp add: pass_inv_def)
      consider "k = i" | "k = j" | "k \<noteq> i" "k \<noteq> j" by blast
      then show ?thesis
      proof cases
        case 1
        with fi pi show ?thesis by simp
      next
        case 2
        with fj pj show ?thesis by simp
      next
        case 3
        with old show ?thesis by (simp add: es')
      qed
    qed
    have c: "is_similar (es' ! a) = 1 \<and> is_similar (es' ! b) = 1"
      if ab: "(a, b) \<in> set (past @ [(i, j)])" and m: "pair_matches gc lev (es0 ! a) (es0 ! b)"
      for a b
    proof (cases "(a, b) = (i, j)")
      case True
      with fi fj show ?thesis by simp
    next
      case False
      with ab have "(a, b) \<in> set past" by auto
      with inv m have "is_similar (es ! a) = 1" "is_similar (es ! b) = 1"
        by (auto simp: pass_inv_def)
      then show ?thesis
        using flagged_stays [of i es j] i j len by (simp add: es')
    qed
    from a b c show ?thesis unfolding pass_inv_def by blast
  qed
qed

lemma pass_inv_no_raise:
  assumes "returns_on gc es0"
  shows "no_raise gc lev (length es0) (pass_inv gc lev es0)"
  unfolding no_raise_def
proof (intro allI impI)
  fix i j es past
  assume ij: "i < j" and j: "j < length es0" and len: "length es = length es0"
    and inv: "pass_inv gc lev es0 es past"
  from ij j have i: "i < length es0" by simp
  from inv have er: "map erase es = map erase es0" by (simp add: pass_inv_def)
  from assms ij j obtain d where "gc (coord_of (es0 ! i)) (coord_of (es0 ! j)) = Inr d"
    by (auto simp: returns_on_def library_returns_def)
  then have "gc (coord_of (es ! i)) (coord_of (es ! j)) = Inr d"
    using erase_coord [OF map_erase_nth [OF er i]] erase_coord [OF map_erase_nth [OF er j]]
    by simp
  then show "\<exists>es'. process_entries gc lev i j es = Inr es'"
    using process_entries_eq [of i es j gc lev] ij i j len by simp
qed

lemma find_similar_entries_pass_inv:
  "length (entries (state_of (find_similar_entries gc lev chunks es))) = length es \<and>
   pass_inv gc lev es (entries (state_of (find_similar_entries gc lev chunks es)))
     (completed (state_of (find_similar_entries gc lev chunks es))) \<and>
   (returns_on gc es \<longrightarrow> (\<exists>fin. find_similar_entries gc lev chunks es = Inr fin))"
  using find_similar_entries_inv
      [where gc = gc and lev = lev and es = es and chunks = chunks
         and Q = "pass_inv gc lev es", OF pass_inv_preserved pass_inv_refl]
    pass_inv_no_raise [where gc = gc and ?es0.0 = es and lev = lev]
  by (auto simp: sched_ok_def)

lemma pass_inv_nth:
  "pass_inv gc lev es0 es past \<Longrightarrow> k < length es0 \<Longrightarrow>
     name (es ! k) = name (es0 ! k) \<and> latitude (es ! k) = latitude (es0 ! k) \<and>
     longitude (es ! k) = longitude (es0 ! k) \<and>
     (is_similar (es ! k) = is_similar (es0 ! k) \<or>
      (is_similar (es ! k) = 1 \<and> has_partner gc lev es0 k))"
  using erase_fields [OF map_erase_nth [of es es0 k]] by (simp add: pass_inv_def)

lemma process_entries_step:
  assumes "i < j" and "j < length es" and "library_returns gc (es ! i) (es ! j)"
  shows "\<exists>es'. process_entries gc lev i j es = Inr es' \<and> length es' = length es \<and>
           (\<forall>k<length es.
              name (es' ! k) = name (es ! k) \<and> latitude (es' ! k) = latitude (es ! k) \<and>
              longitude (es' ! k) = longitude (es ! k) \<and>
              (is_similar (es' ! k) = is_similar (es ! k) \<or> is_similar (es' ! k) = 1) \<and>
              (k \<noteq> i \<and> k \<noteq> j \<longrightarrow> es' ! k = es ! k))"
proof -
  from assms have i: "i < length es" and ne: "i \<noteq> j" by simp_all
  from assms(3) obtain d where d: "gc (coord_of (es ! i)) (coord_of (es ! j)) = Inr d"
    by (auto simp: library_returns_def)
  have "name (es[i := flag (es ! i), j := flag (es ! j)] ! k) = name (es ! k) \<and>
        latitude (es[i := flag (es ! i), j := flag (es ! j)] ! k) = latitude (es ! k) \<and>
        longitude (es[i := flag (es ! i), j := flag (es ! j)] ! k) = longitude (es ! k) \<and>
        (is_similar (es[i := flag (es ! i), j := flag (es ! j)] ! k) = is_similar (es ! k) \<or>
         is_similar (es[i := flag (es ! i), j := flag (es ! j)] ! k) = 1) \<and>
        (k \<noteq> i \<and> k \<noteq> j \<longrightarrow> es[i := flag (es ! i), j := flag (es ! j)] ! k = es ! k)"
    if "k < length es" for k
    using that by (cases "k = j"; cases "k = i") (simp_all add: flag_def)
  then show ?thesis
    using process_entries_eq [OF i assms(2) ne, of gc lev] d by simp
qed



lemma float_le_if_not_gt: "d \<noteq> NaN \<Longrightarrow> \<not> float_gt d k \<Longrightarrow> float_le d k"
  by (cases d) simp_all

lemma valid_returns_on:
  assumes "never_nan_in_range gc" and "list_all in_range es"
  shows "returns_on gc es"
  unfolding returns_on_def library_returns_def
proof (intro allI impI)
  fix a b
  assume "a < b" and "b < length es"
  with assms(2) have "valid_coord (coord_of (es ! a))" "valid_coord (coord_of (es ! b))"
    by (simp_all add: list_all_length in_range_def)
  with assms(1) show "\<exists>d. gc (coord_of (es ! a)) (coord_of (es ! b)) = Inr d"
    unfolding never_nan_in_range_def by blast
qed

lemma has_partner_close:
  assumes lib: "never_nan_in_range gc" and valid: "list_all in_range es"
    and p: "has_partner gc lev es k" and k: "k < length es"
  shows "has_close_partner gc lev es k"
proof -
  from p obtain m where m: "m < length es" "m \<noteq> k"
    and pm: "pair_matches gc lev (es ! min k m) (es ! max k m)"
    by (auto simp: has_partner_def)
  from m k have "min k m < length es" "max k m < length es" by simp_all
  with valid have "valid_coord (coord_of (es ! min k m))" "valid_coord (coord_of (es ! max k m))"
    by (simp_all add: list_all_length in_range_def)
  with lib obtain d where "gc (coord_of (es ! min k m)) (coord_of (es ! max k m)) = Inr d"
    "d \<noteq> NaN"
    unfolding never_nan_in_range_def by blast
  with pm have "close_match gc lev (es ! min k m) (es ! max k m)"
    by (simp add: pair_matches_def close_match_def float_le_if_not_gt)
  with m show ?thesis by (auto simp: has_close_partner_def)
qed

section \<open>The loader and the sample inputs\<close>

lemma load_row_unflagged: "load_row parse_float r = Inr e \<Longrightarrow> is_similar e = 0"
  by (auto simp: load_row_def split: option.splits)

lemma load_rows_unflagged:
  "load_rows parse_float rows es = Inr es' \<Longrightarrow> list_all unflagged es \<Longrightarrow> list_all unflagged es'"
proof (induction rows arbitrary: es)
  case Nil
  then show ?case by simp
next
  case (Cons r rows)
  then show ?case
    by (auto simp: unflagged_def split: sum.splits dest: load_row_unflagged)
qed

lemma load_row_bad: "bad_row parse_float r \<Longrightarrow> \<exists>e. load_row parse_float r = Inl e"
  by (auto simp: bad_row_def malformed_def load_row_def split: option.splits)

lemma load_rows_bad:
  "list_ex (bad_row parse_float) rows \<Longrightarrow> \<exists>e. load_rows parse_float rows es = Inl e"
proof (induction rows arbitrary: es)
  case Nil
  then show ?case by simp
next
  case (Cons r rows)
  show ?case
  proof (cases "load_row parse_float r")
    case (Inl e)
    then show ?thesis by simp
  next
    case (Inr en)
    with load_row_bad [of parse_float r] have "\<not> bad_row parse_float r" by auto
    with Cons.prems have "list_ex (bad_row parse_float) rows" by simp
    from Cons.IH [OF this, of "es @ [en]"] Inr show ?thesis by simp
  qed
qed

lemmas sample_defs = cafe_a_def cafe_b_def cafe_c_def zebra_def far_cafe_def lost_cafe_def
  edge_cafe_def polar_cafe_def

lemmas eval_defs = process_entries_def distance_between_coordinates_def is_name_similar_def
  MAX_DISTANCE_def MAX_EDITS_def gather_def init_sched_def find_similar_entries_def Let_def

lemma sample_metres_never_nan: "never_nan_in_range sample_metres"
  unfolding never_nan_in_range_def
proof (intro allI impI)
  fix c1 c2 :: coord
  assume "valid_coord c1" and "valid_coord c2"
  then obtain la1 lo1 la2 lo2 where c: "c1 = (Finite la1, Finite lo1)" "c2 = (Finite la2, Finite lo2)"
    and "- 90 \<le> la1" "la1 \<le> 90" "- 90 \<le> la2" "la2 \<le> 90"
    by (auto elim!: valid_coord.elims)
  then have "\<not> (90 < \<bar>la1\<bar> \<or> 90 < \<bar>la2\<bar>)" by auto
  with c show "\<exists>d. sample_metres c1 c2 = Inr d \<and> d \<noteq> NaN" by simp
qed

lemma cafes_returns: "returns_on sample_metres cafes"
proof -
  have "library_returns sample_metres (cafes ! a) (cafes ! b)" if "a < b" "b < length cafes" for a b
  proof -
    from that have "b = 1 \<or> b = 2" by (auto simp: cafes_def)
    moreover from that have "a = 0 \<or> a = 1" by (auto simp: cafes_def)
    ultimately show ?thesis
      by (auto simp: cafes_def library_returns_def coord_of_def sample_defs)
  qed
  then show ?thesis by (simp add: returns_on_def)
qed

lemma trio_returns: "returns_on sample_metres trio"
  using valid_returns_on [OF sample_metres_never_nan, of trio]
  by (simp add: trio_def in_range_def coord_of_def sample_defs)

lemma trio_eval:
  "find_similar_entries sample_metres levenshtein CHUNKS trio =
     Inr \<lparr>entries = [flag cafe_a, flag cafe_b, far_cafe], tasks = [(0, 1), (0, 2), (1, 2)],
          counter = 3, completed = [(0, 1), (0, 2), (1, 2)]\<rparr>"
  by (simp add: trio_def sample_defs eval_defs flag_def upt_rec CHUNKS_def)

section \<open>Claims about the pair evaluator\<close>

text \<open>
  C1. For indices \<open>i < j\<close> of the list, when the distance computation returns,
  \<open>process_entries\<close> returns and sets \<open>is_similar = 1\<close> on both records when the distance
  does not exceed \<open>MAX_DISTANCE\<close> and the edit distance of the names is strictly less than
  \<open>MAX_EDITS\<close>; when either condition fails, the list is returned as it was. When the
  distance computation raises, so does \<open>process_entries\<close>, before any assignment.
\<close>

theorem process_entries_flags_iff_match:
  assumes "i < j" and "j < length es"
  shows "(library_returns gc (es ! i) (es ! j) \<longrightarrow>
           (\<exists>es'. process_entries gc lev i j es = Inr es' \<and>
              (pair_matches gc lev (es ! i) (es ! j) \<longrightarrow>
                 is_similar (es' ! i) = 1 \<and> is_similar (es' ! j) = 1) \<and>
              (\<not> pair_matches gc lev (es ! i) (es ! j) \<longrightarrow> es' = es))) \<and>
         (\<forall>e. gc (coord_of (es ! i)) (coord_of (es ! j)) = Inl e \<longrightarrow>
            process_entries gc lev i j es = Inl e)"
proof -
  from assms have i: "i < length es" and ne: "i \<noteq> j" by simp_all
  show ?thesis
    using process_entries_eq [OF i assms(2) ne, of gc lev] i assms(2) ne
    by (auto simp: flag_def library_returns_def)
qed

text \<open>
  The theorem at two pairs of a sample list: records 0 and 1 are 111 metres apart with
  names one edit apart, records 0 and 2 are 111 kilometres apart.
\<close>

theorem process_entries_flags_iff_match_witness:
  "(0::nat) < 1 \<and> 1 < length [cafe_a, cafe_b, far_cafe] \<and>
   library_returns sample_metres cafe_a cafe_b \<and>
   pair_matches sample_metres levenshtein cafe_a cafe_b \<and>
   (\<exists>es'. process_entries sample_metres levenshtein 0 1 [cafe_a, cafe_b, far_cafe] = Inr es' \<and>
      is_similar (es' ! 0) = 1 \<and> is_similar (es' ! 1) = 1) \<and>
   (0::nat) < 2 \<and> 2 < length [cafe_a, cafe_b, far_cafe] \<and>
   library_returns sample_metres cafe_a far_cafe \<and>
   \<not> pair_matches sample_metres levenshtein cafe_a far_cafe \<and>
   process_entries sample_metres levenshtein 0 2 [cafe_a, cafe_b, far_cafe] =
     Inr [cafe_a, cafe_b, far_cafe]"
proof -
  have h1: "(0::nat) < 1" and h2: "(0::nat) < 2" by simp_all
  have l1: "1 < length [cafe_a, cafe_b, far_cafe]"
    and l2: "2 < length [cafe_a, cafe_b, far_cafe]" by simp_all
  have r1: "library_returns sample_metres cafe_a cafe_b"
    and r2: "library_returns sample_metres cafe_a far_cafe"
    by (simp_all add: library_returns_def coord_of_def sample_defs)
  have m: "pair_matches sample_metres levenshtein cafe_a cafe_b"
    by (simp add: pair_matches_def coord_of_def sample_defs MAX_DISTANCE_def MAX_EDITS_def)
  have n: "\<not> pair_matches sample_metres levenshtein cafe_a far_cafe"
    by (simp add: pair_matches_def coord_of_def sample_defs MAX_DISTANCE_def MAX_EDITS_def)
  from process_entries_flags_iff_match [OF h1 l1, of sample_metres levenshtein] m r1
  have a: "\<exists>es'. process_entries sample_metres levenshtein 0 1 [cafe_a, cafe_b, far_cafe] = Inr es' \<and>
      is_similar (es' ! 0) = 1 \<and> is_similar (es' ! 1) = 1"
    by auto
  from process_entries_flags_iff_match [OF h2 l2, of sample_metres levenshtein] n r2
  have b: "process_entries sample_metres levenshtein 0 2 [cafe_a, cafe_b, far_cafe] =
     Inr [cafe_a, cafe_b, far_cafe]"
    by auto
  from h1 h2 l1 l2 r1 r2 m n a b show ?thesis by blast
qed




text \<open>
  C4. A distance exactly equal to \<open>MAX_DISTANCE\<close> passes the first stage: the outcome is
  decided by the names alone. An edit distance exactly equal to \<open>MAX_EDITS\<close> is not
  similar, and the list is returned as it was.
\<close>

theorem threshold_boundaries:
  assumes "i < j" and "j < length es"
  shows "(gc (coord_of (es ! i)) (coord_of (es ! j)) = Inr (Finite (of_int MAX_DISTANCE)) \<longrightarrow>
            process_entries gc lev i j es =
              Inr (if is_name_similar lev (name (es ! i)) (name (es ! j))
                   then es[i := flag (es ! i), j := flag (es ! j)] else es)) \<and>
         (lev (name (es ! i)) (name (es ! j)) = MAX_EDITS \<longrightarrow>
            \<not> is_name_similar lev (name (es ! i)) (name (es ! j)) \<and>
            (library_returns gc (es ! i) (es ! j) \<longrightarrow> process_entries gc lev i j es = Inr es))"
proof -
  from assms have i: "i < length es" and ne: "i \<noteq> j" by simp_all
  show ?thesis
    using process_entries_eq [OF i assms(2) ne, of gc lev]
    by (auto simp: pair_matches_def is_name_similar_def library_returns_def)
qed

text \<open>
  The theorem at a pair exactly 200 metres apart, and at a pair of names exactly five
  edits apart.
\<close>

theorem threshold_boundaries_witness:
  "(0::nat) < 1 \<and> 1 < length [cafe_a, edge_cafe] \<and>
   sample_metres (coord_of ([cafe_a, edge_cafe] ! 0)) (coord_of ([cafe_a, edge_cafe] ! 1)) =
     Inr (Finite (of_int MAX_DISTANCE)) \<and>
   process_entries sample_metres levenshtein 0 1 [cafe_a, edge_cafe] =
     Inr [flag cafe_a, flag edge_cafe] \<and>
   1 < length [cafe_a, zebra] \<and>
   levenshtein (name ([cafe_a, zebra] ! 0)) (name ([cafe_a, zebra] ! 1)) = MAX_EDITS \<and>
   library_returns sample_metres ([cafe_a, zebra] ! 0) ([cafe_a, zebra] ! 1) \<and>
   process_entries sample_metres levenshtein 0 1 [cafe_a, zebra] = Inr [cafe_a, zebra]"
proof -
  have h1: "(0::nat) < 1" by simp
  have l1: "1 < length [cafe_a, edge_cafe]" and l2: "1 < length [cafe_a, zebra]"
    by simp_all
  have d: "sample_metres (coord_of ([cafe_a, edge_cafe] ! 0))
      (coord_of ([cafe_a, edge_cafe] ! 1)) = Inr (Finite (of_int MAX_DISTANCE))"
    by (simp add: coord_of_def sample_defs MAX_DISTANCE_def)
  have e: "levenshtein (name ([cafe_a, zebra] ! 0)) (name ([cafe_a, zebra] ! 1)) = MAX_EDITS"
    by (simp add: sample_defs MAX_EDITS_def)
  have r: "library_returns sample_metres ([cafe_a, zebra] ! 0) ([cafe_a, zebra] ! 1)"
    by (simp add: library_returns_def coord_of_def sample_defs)
  have sim: "is_name_similar levenshtein (name cafe_a) (name edge_cafe)"
    by (simp add: is_name_similar_def sample_defs MAX_EDITS_def)
  from threshold_boundaries
    [where i = 0 and j = 1 and es = "[cafe_a, edge_cafe]" and gc = sample_metres
       and lev = levenshtein, OF h1 l1] d sim
  have a: "process_entries sample_metres levenshtein 0 1 [cafe_a, edge_cafe] =
     Inr [flag cafe_a, flag edge_cafe]"
    by simp
  from threshold_boundaries
    [where i = 0 and j = 1 and es = "[cafe_a, zebra]" and gc = sample_metres
       and lev = levenshtein, OF h1 l2] e r
  have b: "process_entries sample_metres levenshtein 0 1 [cafe_a, zebra] = Inr [cafe_a, zebra]"
    by simp
  from h1 l1 l2 d e r a b show ?thesis by blast
qed

text \<open>
  C7. Evaluating the pair \<open>(i, j)\<close> a second time, on the list that the first
  evaluation returned, returns that list again. When the distance computation raises,
  the evaluation raises and the list is as it was.
\<close>

theorem process_entries_idempotent:
  assumes "i < j" and "j < length es"
  shows "(library_returns gc (es ! i) (es ! j) \<longrightarrow>
           (\<exists>es'. process_entries gc lev i j es = Inr es' \<and>
                  process_entries gc lev i j es' = Inr es')) \<and>
         (\<forall>e. gc (coord_of (es ! i)) (coord_of (es ! j)) = Inl e \<longrightarrow>
            process_entries gc lev i j es = Inl e)"
proof (intro conjI impI allI)
  fix e
  assume "gc (coord_of (es ! i)) (coord_of (es ! j)) = Inl e"
  then show "process_entries gc lev i j es = Inl e"
    by (rule process_entries_raises [OF assms])
next
  assume "library_returns gc (es ! i) (es ! j)"
  then obtain d where d: "gc (coord_of (es ! i)) (coord_of (es ! j)) = Inr d"
    by (auto simp: library_returns_def)
  from assms have i: "i < length es" and ne: "i \<noteq> j" by simp_all
  show "\<exists>es'. process_entries gc lev i j es = Inr es' \<and> process_entries gc lev i j es' = Inr es'"
  proof (cases "pair_matches gc lev (es ! i) (es ! j)")
    case False
    with process_entries_eq [OF i assms(2) ne, of gc lev] d show ?thesis by simp
  next
    case True
    define es' where "es' = es[i := flag (es ! i), j := flag (es ! j)]"
    have first: "process_entries gc lev i j es = Inr es'"
      using process_entries_eq [OF i assms(2) ne, of gc lev] True d by (simp add: es'_def)
    have len: "i < length es'" "j < length es'" using i assms(2) by (simp_all add: es'_def)
    have ati: "es' ! i = flag (es ! i)" and atj: "es' ! j = flag (es ! j)"
      using i assms(2) ne by (simp_all add: es'_def)
    have d': "gc (coord_of (es' ! i)) (coord_of (es' ! j)) = Inr d"
      using d by (simp add: ati atj coord_of_def flag_def)
    have still: "pair_matches gc lev (es' ! i) (es' ! j)"
      using True pair_matches_erase [of "es' ! i" "es ! i" "es' ! j" "es ! j" gc lev]
      by (simp add: ati atj)
    have same: "es'[i := flag (es' ! i), j := flag (es' ! j)] = es'"
      by (simp add: ati atj flag_def) (simp add: es'_def flag_def list_update_swap [OF ne])
    from process_entries_eq [OF len ne, of gc lev] still same d'
    have "process_entries gc lev i j es' = Inr es'" by simp
    with first show ?thesis by blast
  qed
qed

text \<open>The theorem at a pair that matches.\<close>

theorem process_entries_idempotent_witness:
  "(0::nat) < 1 \<and> 1 < length [cafe_a, cafe_b] \<and>
   library_returns sample_metres ([cafe_a, cafe_b] ! 0) ([cafe_a, cafe_b] ! 1) \<and>
   process_entries sample_metres levenshtein 0 1 [cafe_a, cafe_b] =
     Inr [flag cafe_a, flag cafe_b] \<and>
   process_entries sample_metres levenshtein 0 1 [flag cafe_a, flag cafe_b] =
     Inr [flag cafe_a, flag cafe_b]"
proof -
  have h1: "(0::nat) < 1" and l1: "1 < length [cafe_a, cafe_b]" by simp_all
  have r: "library_returns sample_metres ([cafe_a, cafe_b] ! 0) ([cafe_a, cafe_b] ! 1)"
    by (simp add: library_returns_def coord_of_def sample_defs)
  have first: "process_entries sample_metres levenshtein 0 1 [cafe_a, cafe_b] =
     Inr [flag cafe_a, flag cafe_b]"
    by (simp add: eval_defs flag_def sample_defs)
  from process_entries_idempotent
    [where i = 0 and j = 1 and es = "[cafe_a, cafe_b]" and gc = sample_metres
       and lev = levenshtein, OF h1 l1] first r
  have "process_entries sample_metres levenshtein 0 1 [flag cafe_a, flag cafe_b] =
     Inr [flag cafe_a, flag cafe_b]"
    by simp
  with h1 l1 r first show ?thesis by blast
qed

text \<open>
  C8. An evaluation of the pair \<open>(i, j)\<close> that returns keeps the length of the list, the
  name, latitude and longitude of every record, and every record other than \<open>i\<close> and
  \<open>j\<close> as a whole. The matching pass keeps the length of the list and the name, latitude
  and longitude of the record at every position, whether it returns or is aborted by an
  exception; it returns when the distance computation returns for every pair.
\<close>

theorem frame_condition:
  "(i < j \<and> j < length es \<and> library_returns gc (es ! i) (es ! j) \<longrightarrow>
      (\<exists>es'. process_entries gc lev i j es = Inr es' \<and> length es' = length es \<and>
         (\<forall>k<length es.
            name (es' ! k) = name (es ! k) \<and> latitude (es' ! k) = latitude (es ! k) \<and>
            longitude (es' ! k) = longitude (es ! k) \<and>
            (k \<noteq> i \<and> k \<noteq> j \<longrightarrow> es' ! k = es ! k)))) \<and>
   (returns_on gc es \<longrightarrow>
      (\<exists>fin. find_similar_entries gc lev chunks es = Inr fin \<and>
         length (entries fin) = length es \<and>
         (\<forall>k<length es.
            name (entries fin ! k) = name (es ! k) \<and>
            latitude (entries fin ! k) = latitude (es ! k) \<and>
            longitude (entries fin ! k) = longitude (es ! k)))) \<and>
   length (entries (state_of (find_similar_entries gc lev chunks es))) = length es \<and>
   (\<forall>k<length es.
      name (entries (state_of (find_similar_entries gc lev chunks es)) ! k) = name (es ! k) \<and>
      latitude (entries (state_of (find_similar_entries gc lev chunks es)) ! k) =
        latitude (es ! k) \<and>
      longitude (entries (state_of (find_similar_entries gc lev chunks es)) ! k) =
        longitude (es ! k))"
proof -
  note pass = find_similar_entries_pass_inv [of gc lev chunks es]
  have a: "\<exists>es'. process_entries gc lev i j es = Inr es' \<and> length es' = length es \<and>
         (\<forall>k<length es.
            name (es' ! k) = name (es ! k) \<and> latitude (es' ! k) = latitude (es ! k) \<and>
            longitude (es' ! k) = longitude (es ! k) \<and>
            (k \<noteq> i \<and> k \<noteq> j \<longrightarrow> es' ! k = es ! k))"
    if "i < j \<and> j < length es \<and> library_returns gc (es ! i) (es ! j)"
  proof -
    from that have "i < j" "j < length es" "library_returns gc (es ! i) (es ! j)" by simp_all
    from process_entries_step [OF this, of lev] show ?thesis by blast
  qed
  have len: "length (entries (state_of (find_similar_entries gc lev chunks es))) = length es"
    using pass by blast
  have d: "name (entries (state_of (find_similar_entries gc lev chunks es)) ! k) = name (es ! k) \<and>
      latitude (entries (state_of (find_similar_entries gc lev chunks es)) ! k) =
        latitude (es ! k) \<and>
      longitude (entries (state_of (find_similar_entries gc lev chunks es)) ! k) =
        longitude (es ! k)"
    if "k < length es" for k
    using pass pass_inv_nth [where es = "entries (state_of (find_similar_entries gc lev chunks es))"
        and ?es0.0 = es and gc = gc and lev = lev and k = k] that
    by blast
  have c: "\<exists>fin. find_similar_entries gc lev chunks es = Inr fin \<and>
         length (entries fin) = length es \<and>
         (\<forall>k<length es.
            name (entries fin ! k) = name (es ! k) \<and>
            latitude (entries fin ! k) = latitude (es ! k) \<and>
            longitude (entries fin ! k) = longitude (es ! k))"
    if "returns_on gc es"
  proof -
    from pass that obtain fin where f: "find_similar_entries gc lev chunks es = Inr fin" by blast
    with d len show ?thesis by simp
  qed
  from a c len d show ?thesis by blast
qed

text \<open>The theorem on a sample list of three records.\<close>

theorem frame_condition_witness:
  "(0::nat) < 1 \<and> 1 < length trio \<and> library_returns sample_metres (trio ! 0) (trio ! 1) \<and>
   (\<exists>es'. process_entries sample_metres levenshtein 0 1 trio = Inr es' \<and> length es' = 3 \<and>
      name (es' ! 0) = ''Cafe'' \<and> latitude (es' ! 1) = latitude cafe_b \<and> es' ! 2 = far_cafe) \<and>
   returns_on sample_metres trio \<and>
   (\<exists>fin. find_similar_entries sample_metres levenshtein CHUNKS trio = Inr fin \<and>
      length (entries fin) = 3 \<and> name (entries fin ! 1) = ''Caffe'' \<and>
      longitude (entries fin ! 2) = Finite 20)"
proof -
  have h: "(0::nat) < 1 \<and> 1 < length trio" by (simp add: trio_def)
  have r: "library_returns sample_metres (trio ! 0) (trio ! 1)"
    by (simp add: trio_def library_returns_def coord_of_def sample_defs)
  note inst = frame_condition
    [where i = 0 and j = 1 and es = trio and gc = sample_metres and lev = levenshtein
       and chunks = CHUNKS]
  from inst h r have a: "\<exists>es'. process_entries sample_metres levenshtein 0 1 trio = Inr es' \<and>
      length es' = 3 \<and> name (es' ! 0) = ''Cafe'' \<and> latitude (es' ! 1) = latitude cafe_b \<and>
      es' ! 2 = far_cafe"
    by (auto simp: trio_def cafe_a_def)
  from inst trio_returns
  have b: "\<exists>fin. find_similar_entries sample_metres levenshtein CHUNKS trio = Inr fin \<and>
      length (entries fin) = 3 \<and> name (entries fin ! 1) = ''Caffe'' \<and>
      longitude (entries fin ! 2) = Finite 20"
    by (auto simp: trio_def cafe_b_def far_cafe_def)
  from h r a trio_returns b show ?thesis by blast
qed

section \<open>Claims about the scheduler\<close>

text \<open>
  C2, as the code has it. On a list for whose pairs the distance computation returns,
  let \<open>s\<close> be the state of the scheduler when the outer loop reaches \<open>i\<close>, that is after
  the iterations for \<open>0, ..., i - 1\<close>. When record \<open>i\<close> is not flagged in \<open>s\<close>, every pair
  \<open>(i, j)\<close> with \<open>i < j < n\<close> is among the tasks that have run and returned when the pass
  ends, whatever the flag of record \<open>j\<close>, and both records of such a pair that matches
  are flagged in the list that the pass leaves. When record \<open>i\<close> is flagged in \<open>s\<close>, no
  pair \<open>(i, j)\<close> is among them.
\<close>

theorem pruning_is_left_hand_only:
  assumes "i < length es" and "returns_on gc es"
  shows "\<exists>s fin. outer_loop gc lev chunks (length es) [0 ..< i] (init_sched es) = Inr s \<and>
           find_similar_entries gc lev chunks es = Inr fin \<and>
           (is_similar (entries s ! i) \<noteq> 1 \<longrightarrow>
              (\<forall>j. i < j \<and> j < length es \<longrightarrow>
                 (i, j) \<in> set (completed fin) \<and>
                 (pair_matches gc lev (es ! i) (es ! j) \<longrightarrow>
                    is_similar (entries fin ! i) = 1 \<and> is_similar (entries fin ! j) = 1))) \<and>
           (is_similar (entries s ! i) = 1 \<longrightarrow>
              (\<forall>j. (i, j) \<notin> set (completed fin)))"
proof -
  define n where "n = length es"
  define Q where "Q = pass_inv gc lev es"
  have step: "preserved gc lev n Q"
    unfolding n_def Q_def by (rule pass_inv_preserved)
  have nr: "no_raise gc lev n Q"
    unfolding n_def Q_def by (rule pass_inv_no_raise [OF assms(2)])
  have i: "i < n" using assms by (simp add: n_def)
  have ok0: "sched_ok n Q (init_sched es)"
    unfolding n_def Q_def by (rule init_sched_ok) (rule pass_inv_refl)
  have iss0: "issued (init_sched es) = []"
    by (simp add: issued_def init_sched_def)
  have "\<forall>k \<in> set [0 ..< i]. k < n" using i by simp
  from outer_loop_inv [where chunks = chunks, OF step ok0 this] nr
  obtain s new1 where o1: "outer_loop gc lev chunks n [0 ..< i] (init_sched es) = Inr s"
    and ok1: "sched_ok n Q s"
    and iss1: "issued s = issued (init_sched es) @ new1"
    and new1: "fst ` set new1 \<subseteq> set [0 ..< i]"
    by blast
  define row where
    "row = (if is_similar (entries s ! i) = 1 then [] else map (Pair i) [i + 1 ..< n])"
  from outer_loop_row [where chunks = chunks, OF step nr ok1 i]
  obtain s2 where o2: "outer_loop gc lev chunks n [i] s = Inr s2"
    and ok2: "sched_ok n Q s2" and iss2: "issued s2 = issued s @ row"
    unfolding row_def by blast
  have "\<forall>k \<in> set [Suc i ..< n]. k < n" by simp
  from outer_loop_inv [where chunks = chunks, OF step ok2 this] nr
  obtain s3 new3 where o3: "outer_loop gc lev chunks n [Suc i ..< n] s2 = Inr s3"
    and ok3: "sched_ok n Q s3" and iss3: "issued s3 = issued s2 @ new3"
    and new3: "fst ` set new3 \<subseteq> set [Suc i ..< n]"
    by blast
  have whole: "outer_loop gc lev chunks n [0 ..< n] (init_sched es) = Inr s3"
    by (simp only: upt_split_at [OF i] outer_loop_append o1 o2 o3 sum.case)
  from final_gather [OF step ok3] nr
  obtain fin where g: "(if counter s3 \<noteq> 0 then gather gc lev s3 else Inr s3) = Inr fin"
    and okf: "sched_ok n Q fin" and ran: "completed fin = issued s3" by blast
  have f: "find_similar_entries gc lev chunks es = Inr fin"
    using whole g by (simp add: find_similar_entries_def Let_def n_def [symmetric])
  have all: "set (completed fin) = set new1 \<union> set row \<union> set new3"
    by (simp add: ran iss3 iss2 iss1 iss0 Un_assoc)
  have not1: "(i, j) \<notin> set new1" for j
    using new1 by (auto simp: image_subset_iff)
  have not3: "(i, j) \<notin> set new3" for j
    using new3 by (auto simp: image_subset_iff)
  from okf have inv: "pass_inv gc lev es (entries fin) (completed fin)"
    by (simp add: sched_ok_def Q_def)
  have flags: "is_similar (entries fin ! a) = 1 \<and> is_similar (entries fin ! b) = 1"
    if "(a, b) \<in> set (completed fin)" "pair_matches gc lev (es ! a) (es ! b)" for a b
    using inv that unfolding pass_inv_def by blast
  have unflagged: "(i, j) \<in> set (completed fin) \<and>
      (pair_matches gc lev (es ! i) (es ! j) \<longrightarrow>
         is_similar (entries fin ! i) = 1 \<and> is_similar (entries fin ! j) = 1)"
    if "is_similar (entries s ! i) \<noteq> 1" "i < j" "j < n" for j
  proof -
    from that have "(i, j) \<in> set (completed fin)" by (simp add: all row_def)
    with flags show ?thesis by blast
  qed
  have flagged: "(i, j) \<notin> set (completed fin)"
    if "is_similar (entries s ! i) = 1" for j
    using that not1 not3 by (simp add: all row_def)
  from o1 f unflagged flagged show ?thesis
    unfolding n_def by blast
qed

text \<open>
  The theorem on three records that all match, with batches of two tasks: the first
  batch flags all three, so that the row of record 1 is skipped, while the row of
  record 0 was evaluated in full and has flagged record 2.
\<close>

theorem pruning_is_left_hand_only_witness:
  "(1::nat) < length cafes \<and> returns_on sample_metres cafes \<and>
   (\<exists>s fin. outer_loop sample_metres levenshtein 2 (length cafes) [0 ..< 1] (init_sched cafes) = Inr s \<and>
      find_similar_entries sample_metres levenshtein 2 cafes = Inr fin \<and>
      is_similar (entries s ! 1) = 1 \<and> (1, 2) \<notin> set (completed fin)) \<and>
   (0::nat) < length cafes \<and>
   pair_matches sample_metres levenshtein (cafes ! 0) (cafes ! 2) \<and>
   (\<exists>s fin. outer_loop sample_metres levenshtein 2 (length cafes) [0 ..< 0] (init_sched cafes) = Inr s \<and>
      find_similar_entries sample_metres levenshtein 2 cafes = Inr fin \<and>
      is_similar (entries s ! 0) \<noteq> 1 \<and> (0, 1) \<in> set (completed fin) \<and>
      (0, 2) \<in> set (completed fin) \<and> is_similar (entries fin ! 2) = 1)"
proof -
  have l1: "(1::nat) < length cafes" and l0: "(0::nat) < length cafes"
    by (simp_all add: cafes_def)
  have len: "length cafes = 3" by (simp add: cafes_def)
  have at1: "outer_loop sample_metres levenshtein 2 (length cafes) [0 ..< 1] (init_sched cafes) =
      Inr \<lparr>entries = [flag cafe_a, flag cafe_b, flag cafe_c], tasks = [], counter = 0,
            completed = [(0, 1), (0, 2)]\<rparr>"
    by (simp add: cafes_def sample_defs eval_defs flag_def upt_rec)
  have at0: "outer_loop sample_metres levenshtein 2 (length cafes) [0 ..< 0] (init_sched cafes) =
      Inr (init_sched cafes)"
    by simp
  have m: "pair_matches sample_metres levenshtein (cafes ! 0) (cafes ! 2)"
    by (simp add: pair_matches_def coord_of_def cafes_def sample_defs MAX_DISTANCE_def
        MAX_EDITS_def)
  from pruning_is_left_hand_only
    [where i = 1 and es = cafes and gc = sample_metres and lev = levenshtein and chunks = 2,
      OF l1 cafes_returns] at1
  have a: "\<exists>s fin. outer_loop sample_metres levenshtein 2 (length cafes) [0 ..< 1] (init_sched cafes) = Inr s \<and>
      find_similar_entries sample_metres levenshtein 2 cafes = Inr fin \<and>
      is_similar (entries s ! 1) = 1 \<and> (1, 2) \<notin> set (completed fin)"
    by (auto simp: flag_def)
  have un0: "is_similar (entries (init_sched cafes) ! 0) \<noteq> 1"
    by (simp add: init_sched_def cafes_def cafe_a_def)
  from pruning_is_left_hand_only
    [where i = 0 and es = cafes and gc = sample_metres and lev = levenshtein and chunks = 2,
      OF l0 cafes_returns] at0 un0 len m
  have b: "\<exists>s fin. outer_loop sample_metres levenshtein 2 (length cafes) [0 ..< 0] (init_sched cafes) = Inr s \<and>
      find_similar_entries sample_metres levenshtein 2 cafes = Inr fin \<and>
      is_similar (entries s ! 0) \<noteq> 1 \<and> (0, 1) \<in> set (completed fin) \<and>
      (0, 2) \<in> set (completed fin) \<and> is_similar (entries fin ! 2) = 1"
    by auto
  from l1 l0 cafes_returns m a b show ?thesis by blast
qed

text \<open>
  C2 as stated fails on a list that the loader accepts and on which the distance
  computation raises, here for a latitude of 91 degrees. Record 0 is not flagged when
  the outer loop reaches it, yet the evaluation of the pair \<open>(0, 1)\<close> does not come to
  either test: it raises, no task returns, and the run ends with an uncaught ValueError.
  With batches of one task the pass is aborted at the first gather, before the pair
  \<open>(0, 2)\<close> is created.
\<close>

theorem pruning_counterexample:
  "load_rows sample_float [row_polar, row_a] [] = Inr [polar_cafe, cafe_a] \<and>
   outer_loop sample_metres levenshtein CHUNKS 2 [0 ..< 0] (init_sched [polar_cafe, cafe_a]) =
     Inr (init_sched [polar_cafe, cafe_a]) \<and>
   is_similar (entries (init_sched [polar_cafe, cafe_a]) ! 0) = 0 \<and>
   find_similar_entries sample_metres levenshtein CHUNKS [polar_cafe, cafe_a] =
     Inl (ValueError, \<lparr>entries = [polar_cafe, cafe_a], tasks = [(0, 1)], counter = 1,
       completed = []\<rparr>) \<and>
   main sample_float sample_metres levenshtein [row_polar, row_a] [''y''] = Uncaught ValueError \<and>
   find_similar_entries sample_metres levenshtein 1 [polar_cafe, cafe_a, cafe_b] =
     Inl (ValueError, \<lparr>entries = [polar_cafe, cafe_a, cafe_b], tasks = [(0, 1)], counter = 1,
       completed = []\<rparr>)"
proof -
  have ld: "load_rows sample_float [row_polar, row_a] [] = Inr [polar_cafe, cafe_a]"
    by (simp add: load_row_def row_a_def row_polar_def sample_float_def sample_defs)
  have fl: "is_similar polar_cafe = 0" by (simp add: polar_cafe_def)
  have pe: "process_entries sample_metres levenshtein 0 1 [polar_cafe, cafe_a] = Inl ValueError"
    by (simp add: eval_defs sample_defs)
  have pe3: "process_entries sample_metres levenshtein 0 1 [polar_cafe, cafe_a, cafe_b] =
      Inl ValueError"
    by (simp add: eval_defs sample_defs)
  have fs: "find_similar_entries sample_metres levenshtein CHUNKS [polar_cafe, cafe_a] =
      Inl (ValueError, \<lparr>entries = [polar_cafe, cafe_a], tasks = [(0, 1)], counter = 1,
        completed = []\<rparr>)"
    using pe
    by (simp add: find_similar_entries_def init_sched_def gather_def CHUNKS_def Let_def
        upt_rec fl)
  have fs3: "find_similar_entries sample_metres levenshtein 1 [polar_cafe, cafe_a, cafe_b] =
      Inl (ValueError, \<lparr>entries = [polar_cafe, cafe_a, cafe_b], tasks = [(0, 1)], counter = 1,
        completed = []\<rparr>)"
    using pe3
    by (simp add: find_similar_entries_def init_sched_def gather_def Let_def upt_rec fl)
  have m: "main sample_float sample_metres levenshtein [row_polar, row_a] [''y''] =
      Uncaught ValueError"
    unfolding main_def ld by (simp add: fs confirm_def)
  from ld fl fs fs3 m show ?thesis by (simp add: init_sched_def)
qed

text \<open>
  C5. For a list whose coordinates are all in the valid range and whose flags are all
  0, as loaded, the matching pass returns, every record that it leaves flagged has
  another record within \<open>MAX_DISTANCE\<close> whose name is less than \<open>MAX_EDITS\<close> edits away,
  and a record without such a partner ends with the flag 0.
\<close>

theorem flag_soundness:
  assumes lib: "never_nan_in_range gc"
    and valid: "list_all in_range es"
    and fresh: "list_all unflagged es"
  shows "\<exists>fin. find_similar_entries gc lev chunks es = Inr fin \<and>
           (\<forall>k<length es.
              (is_similar (entries fin ! k) = 1 \<longrightarrow> has_close_partner gc lev es k) \<and>
              (\<not> has_close_partner gc lev es k \<longrightarrow> is_similar (entries fin ! k) = 0))"
proof -
  from find_similar_entries_pass_inv [of gc lev chunks es] valid_returns_on [OF lib valid]
  obtain fin where f: "find_similar_entries gc lev chunks es = Inr fin"
    and inv: "pass_inv gc lev es (entries fin) (completed fin)" by auto
  have "(is_similar (entries fin ! k) = 1 \<longrightarrow> has_close_partner gc lev es k) \<and>
        (\<not> has_close_partner gc lev es k \<longrightarrow> is_similar (entries fin ! k) = 0)"
    if k: "k < length es" for k
  proof -
    from fresh k have zero: "is_similar (es ! k) = 0"
      by (simp add: list_all_length unflagged_def)
    from pass_inv_nth [OF inv k] zero
    have "is_similar (entries fin ! k) = 0 \<or>
        (is_similar (entries fin ! k) = 1 \<and> has_partner gc lev es k)"
      by simp
    then show ?thesis
      using has_partner_close [OF lib valid _ k, of lev] by auto
  qed
  with f show ?thesis by blast
qed

text \<open>
  The theorem on a sample list: record 0 is flagged and has a partner, record 2 has no
  partner and ends with the flag 0.
\<close>

theorem flag_soundness_witness:
  "never_nan_in_range sample_metres \<and> list_all in_range trio \<and> list_all unflagged trio \<and>
   (\<exists>fin. find_similar_entries sample_metres levenshtein CHUNKS trio = Inr fin \<and>
      is_similar (entries fin ! 0) = 1 \<and> has_close_partner sample_metres levenshtein trio 0 \<and>
      \<not> has_close_partner sample_metres levenshtein trio 2 \<and>
      is_similar (entries fin ! 2) = 0)"
proof -
  have v: "list_all in_range trio"
    by (simp add: trio_def in_range_def coord_of_def sample_defs)
  have u: "list_all unflagged trio"
    by (simp add: trio_def unflagged_def sample_defs)
  have alone: "\<not> has_close_partner sample_metres levenshtein trio 2"
  proof
    assume "has_close_partner sample_metres levenshtein trio 2"
    then obtain m where m: "m < length trio" "m \<noteq> 2"
      and c: "close_match sample_metres levenshtein (trio ! min 2 m) (trio ! max 2 m)"
      unfolding has_close_partner_def by blast
    from m have "m = 0 \<or> m = 1" by (auto simp: trio_def)
    then show False
      using c by (auto simp: close_match_def trio_def coord_of_def sample_defs MAX_DISTANCE_def)
  qed
  from flag_soundness [OF sample_metres_never_nan v u, of levenshtein CHUNKS]
  obtain fin where f: "find_similar_entries sample_metres levenshtein CHUNKS trio = Inr fin"
    and sound: "\<forall>k<length trio.
      (is_similar (entries fin ! k) = 1 \<longrightarrow> has_close_partner sample_metres levenshtein trio k) \<and>
      (\<not> has_close_partner sample_metres levenshtein trio k \<longrightarrow> is_similar (entries fin ! k) = 0)"
    by blast
  have k0: "0 < length trio" and k2: "2 < length trio" by (simp_all add: trio_def)
  from f trio_eval have one: "is_similar (entries fin ! 0) = 1"
    by (auto simp: flag_def)
  from sound k0 one have partner: "has_close_partner sample_metres levenshtein trio 0"
    by blast
  from sound k2 alone have zero: "is_similar (entries fin ! 2) = 0"
    by blast
  from f one partner alone zero
  have "\<exists>fin. find_similar_entries sample_metres levenshtein CHUNKS trio = Inr fin \<and>
      is_similar (entries fin ! 0) = 1 \<and> has_close_partner sample_metres levenshtein trio 0 \<and>
      \<not> has_close_partner sample_metres levenshtein trio 2 \<and>
      is_similar (entries fin ! 2) = 0"
    by blast
  with sample_metres_never_nan v u show ?thesis by blast
qed

text \<open>
  C6. Every record that is loaded has the flag 0. An evaluation of a pair leaves each
  flag as it was or sets it to 1, and so does the matching pass as a whole, whether it
  returns or is aborted by an exception: no flag goes from 1 back to 0.
\<close>

theorem flag_starts_zero_and_is_monotonic:
  "(load_rows parse_float rows [] = Inr es0 \<longrightarrow> list_all unflagged es0) \<and>
   (i < j \<and> j < length es \<and> library_returns gc (es ! i) (es ! j) \<longrightarrow>
      (\<exists>es'. process_entries gc lev i j es = Inr es' \<and>
         (\<forall>k<length es. is_similar (es' ! k) = is_similar (es ! k) \<or>
            is_similar (es' ! k) = 1))) \<and>
   (returns_on gc es \<longrightarrow>
      (\<exists>fin. find_similar_entries gc lev chunks es = Inr fin \<and>
         (\<forall>k<length es. is_similar (entries fin ! k) = is_similar (es ! k) \<or>
            is_similar (entries fin ! k) = 1))) \<and>
   (\<forall>k<length es.
      is_similar (entries (state_of (find_similar_entries gc lev chunks es)) ! k) =
        is_similar (es ! k) \<or>
      is_similar (entries (state_of (find_similar_entries gc lev chunks es)) ! k) = 1)"
proof -
  note pass = find_similar_entries_pass_inv [of gc lev chunks es]
  have a: "list_all unflagged es0" if "load_rows parse_float rows [] = Inr es0"
    using load_rows_unflagged [OF that] by simp
  have b: "\<exists>es'. process_entries gc lev i j es = Inr es' \<and>
         (\<forall>k<length es. is_similar (es' ! k) = is_similar (es ! k) \<or>
            is_similar (es' ! k) = 1)"
    if "i < j \<and> j < length es \<and> library_returns gc (es ! i) (es ! j)"
  proof -
    from that have "i < j" "j < length es" "library_returns gc (es ! i) (es ! j)" by simp_all
    from process_entries_step [OF this, of lev] show ?thesis by blast
  qed
  have d: "is_similar (entries (state_of (find_similar_entries gc lev chunks es)) ! k) =
        is_similar (es ! k) \<or>
      is_similar (entries (state_of (find_similar_entries gc lev chunks es)) ! k) = 1"
    if "k < length es" for k
    using pass pass_inv_nth [where es = "entries (state_of (find_similar_entries gc lev chunks es))"
        and ?es0.0 = es and gc = gc and lev = lev and k = k] that
    by blast
  have c: "\<exists>fin. find_similar_entries gc lev chunks es = Inr fin \<and>
         (\<forall>k<length es. is_similar (entries fin ! k) = is_similar (es ! k) \<or>
            is_similar (entries fin ! k) = 1)"
    if "returns_on gc es"
  proof -
    from pass that obtain fin where f: "find_similar_entries gc lev chunks es = Inr fin" by blast
    with d show ?thesis by simp
  qed
  from a b c d show ?thesis by blast
qed

text \<open>
  The theorem on two loaded rows, and on a list whose first record is flagged and
  matches nothing: its flag is still 1 after the evaluation and after the pass.
\<close>

theorem flag_starts_zero_and_is_monotonic_witness:
  "load_rows sample_float [row_a, row_a] [] = Inr [cafe_a, cafe_a] \<and>
   list_all unflagged [cafe_a, cafe_a] \<and>
   (0::nat) < 1 \<and> 1 < length [flag cafe_a, zebra] \<and>
   library_returns sample_metres ([flag cafe_a, zebra] ! 0) ([flag cafe_a, zebra] ! 1) \<and>
   process_entries sample_metres levenshtein 0 1 [flag cafe_a, zebra] = Inr [flag cafe_a, zebra] \<and>
   returns_on sample_metres [flag cafe_a, zebra] \<and>
   (\<exists>fin. find_similar_entries sample_metres levenshtein CHUNKS [flag cafe_a, zebra] = Inr fin \<and>
      is_similar (entries fin ! 0) = 1)"
proof -
  have ld: "load_rows sample_float [row_a, row_a] [] = Inr [cafe_a, cafe_a]"
    by (simp add: load_row_def row_a_def sample_float_def cafe_a_def)
  have h: "(0::nat) < 1 \<and> 1 < length [flag cafe_a, zebra]" by simp
  have r: "library_returns sample_metres ([flag cafe_a, zebra] ! 0) ([flag cafe_a, zebra] ! 1)"
    by (simp add: library_returns_def coord_of_def flag_def sample_defs)
  have ro: "returns_on sample_metres [flag cafe_a, zebra]"
    using r by (auto simp: returns_on_def less_Suc_eq)
  have pe: "process_entries sample_metres levenshtein 0 1 [flag cafe_a, zebra] =
      Inr [flag cafe_a, zebra]"
    by (simp add: eval_defs flag_def sample_defs)
  have one: "is_similar ([flag cafe_a, zebra] ! 0) = 1" by (simp add: flag_def)
  note inst = flag_starts_zero_and_is_monotonic
    [where parse_float = sample_float and rows = "[row_a, row_a]" and ?es0.0 = "[cafe_a, cafe_a]"
       and i = 0 and j = 1 and es = "[flag cafe_a, zebra]" and gc = sample_metres
       and lev = levenshtein and chunks = CHUNKS]
  from inst ld have u: "list_all unflagged [cafe_a, cafe_a]" by blast
  from inst ro obtain fin where
    f: "find_similar_entries sample_metres levenshtein CHUNKS [flag cafe_a, zebra] = Inr fin"
    and mono: "\<forall>k<length [flag cafe_a, zebra].
      is_similar (entries fin ! k) = is_similar ([flag cafe_a, zebra] ! k) \<or>
      is_similar (entries fin ! k) = 1"
    by blast
  from mono one have "is_similar (entries fin ! 0) = 1" by auto
  with f have fin: "\<exists>fin. find_similar_entries sample_metres levenshtein CHUNKS
      [flag cafe_a, zebra] = Inr fin \<and> is_similar (entries fin ! 0) = 1"
    by blast
  from ld u h r pe ro fin show ?thesis by blast
qed

section \<open>Claims about the prompt and the exit status\<close>

text \<open>
  C9. The prompt is meant to accept \<open>Y\<close> and \<open>N\<close> in either case. The code compares
  the answer itself with \<open>'n'\<close> and \<open>'y'\<close>: after the answer \<open>Y\<close> it asks again, and the run
  ends on the next answer \<open>n\<close>; after the answer \<open>N\<close> it asks again, and the run proceeds
  on the next answer \<open>y\<close>.
\<close>

theorem confirm_is_case_sensitive:
  "confirm [''Y'', ''n''] = Inr Quit \<and> confirm [''N'', ''y''] = Inr Proceed"
  by (simp add: confirm_def)

text \<open>
  C10. When the input file does not exist, or a row lacks a required column or holds a
  latitude or longitude that is not a number, the script ends by \<open>sys.exit(0)\<close>, whatever
  the standard input holds: its exit status is that of a run that completes.
\<close>

theorem load_error_exits_with_status_zero:
  assumes "input_file = None \<or>
    (\<exists>rows. input_file = Some rows \<and> list_ex (bad_row parse_float) rows)"
  shows "script parse_float gc lev input_file stdin = SysExit 0 \<and>
         exit_status (script parse_float gc lev input_file stdin) = exit_status (Written es)"
proof (cases input_file)
  case None
  then show ?thesis by (simp add: script_def)
next
  case (Some rows)
  with assms have "list_ex (bad_row parse_float) rows" by simp
  from load_rows_bad [OF this, of "[]"] Some show ?thesis
    by (auto simp: script_def main_def)
qed

text \<open>
  The theorem on a row without longitude, on a row whose latitude is a word, and on a
  missing file.
\<close>

theorem load_error_exits_with_status_zero_witness:
  "list_ex (bad_row sample_float) [row_a, row_short] \<and>
   script sample_float sample_metres levenshtein (Some [row_a, row_short]) [''y''] = SysExit 0 \<and>
   list_ex (bad_row sample_float) [row_text] \<and>
   script sample_float sample_metres levenshtein (Some [row_text]) [''y''] = SysExit 0 \<and>
   script sample_float sample_metres levenshtein None [''y''] = SysExit 0 \<and>
   exit_status (script sample_float sample_metres levenshtein None [''y'']) =
     exit_status (Written [cafe_a])"
proof -
  have b1: "list_ex (bad_row sample_float) [row_a, row_short]"
    by (simp add: bad_row_def malformed_def row_short_def)
  have b2: "list_ex (bad_row sample_float) [row_text]"
    by (simp add: bad_row_def malformed_def row_text_def sample_float_def)
  have s1: "script sample_float sample_metres levenshtein (Some [row_a, row_short]) [''y''] =
      SysExit 0"
    using load_error_exits_with_status_zero
      [where input_file = "Some [row_a, row_short]" and parse_float = sample_float] b1 by blast
  have s2: "script sample_float sample_metres levenshtein (Some [row_text]) [''y''] = SysExit 0"
    using load_error_exits_with_status_zero
      [where input_file = "Some [row_text]" and parse_float = sample_float] b2 by blast
  have s3: "script sample_float sample_metres levenshtein None [''y''] = SysExit 0 \<and>
      exit_status (script sample_float sample_metres levenshtein None [''y'']) =
        exit_status (Written [cafe_a])"
    using load_error_exits_with_status_zero
      [where input_file = None and parse_float = sample_float and gc = sample_metres
         and lev = levenshtein and stdin = "[''y'']" and es = "[cafe_a]"]
    by blast
  from b1 b2 s1 s2 s3 show ?thesis by blast
qed

end
